theory Spec2Isabelle
  imports Complex_Main "HOL-Library.Signed_Division"
begin

section \<open>The t-digest of pkg/tdigest/tdigest.go\<close>

text \<open>
  The digest keeps a slice of centroids sorted by mean. \<open>Add\<close> folds one value into a
  neighbouring centroid or inserts a new one; \<open>Quantile\<close> interpolates between centroids.

  Conventions of the embedding.
  \<^item> A finite \<open>float64\<close> is a \<open>real\<close> and its arithmetic is exact: rounding, overflow to
    an infinity and NaN operands are not represented. The one NaN the code produces itself,
    the result of \<open>Quantile\<close> on an empty digest, is the constructor \<open>NaN\<close> of the result
    type. The runs of \<open>Add\<close> and \<open>Quantile\<close> evaluated below have values and
    intermediate results that are dyadic rationals of a few bits, so they are the same in
    \<open>float64\<close>.
  \<^item> A Go \<open>int\<close> is an \<open>int\<close>: \<open>nCentroids\<close> counts the elements of a slice held in
    memory, so \<open>nCentroids * 5\<close> is far from \<open>2^63\<close>. Go's integer \<open>/\<close> truncates towards
    zero, which is \<open>sdiv\<close>.
  \<^item> A run-time panic (index or slice bounds out of range) is the \<open>Inl\<close> branch of a sum.
  \<^item> \<open>centroids\<close> is a slice of pointers. Each slot receives a pointer of its own in
    \<open>addCentroid\<close> and pointers are never copied between slots, so a write through
    \<open>left\<close> or \<open>right\<close> is an update of that slot of the list.
\<close>

subsection \<open>Data\<close>

datatype panic = IndexOutOfRange | SliceBoundsOutOfRange

record centroid =
  c_mean :: real
  c_count :: real
  c_maxCount :: real
  c_nCentroids :: int

record TDigest =
  d_centroids :: "centroid list"
  d_compression :: real
  d_count :: real
  d_nCentroids :: int
  d_p5Centroid :: int
  d_p95Centroid :: int
  d_appendLower :: bool

text \<open>The value \<open>Quantile\<close> returns: \<open>math.NaN()\<close> or a finite number.\<close>

datatype qvalue = NaN | Finite real

fun isNaN :: "qvalue \<Rightarrow> bool" where
  "isNaN NaN = True"
| "isNaN (Finite r) = False"

definition binarySearchThreshold :: int where
  "binarySearchThreshold = 32"

subsection \<open>Slice access\<close>

text \<open>\<open>xs[i]\<close> panics outside \<open>0 \<le> i < len(xs)\<close>.\<close>

definition index :: "'a list \<Rightarrow> int \<Rightarrow> panic + 'a" where
  "index xs i = (if 0 \<le> i \<and> i < int (length xs) then Inr (xs ! nat i) else Inl IndexOutOfRange)"

text \<open>\<open>xs[lo:]\<close> panics outside \<open>0 \<le> lo \<le> len(xs)\<close>.\<close>

definition sliceFrom :: "'a list \<Rightarrow> int \<Rightarrow> panic + 'a list" where
  "sliceFrom xs lo =
     (if 0 \<le> lo \<and> lo \<le> int (length xs) then Inr (drop (nat lo) xs) else Inl SliceBoundsOutOfRange)"

text \<open>
  \<open>xs[:hi]\<close> followed by a read of every element. Go allows \<open>hi\<close> up to the capacity, but
  the slots between length and capacity hold nil pointers, whose dereference panics as well;
  both are the same \<open>Inl\<close> here.
\<close>

definition sliceTo :: "'a list \<Rightarrow> int \<Rightarrow> panic + 'a list" where
  "sliceTo xs hi =
     (if 0 \<le> hi \<and> hi \<le> int (length xs) then Inr (take (nat hi) xs) else Inl SliceBoundsOutOfRange)"

subsection \<open>Centroids and construction\<close>

definition inc :: "centroid \<Rightarrow> real \<Rightarrow> centroid" where
  "inc c val =
     (let cnt = c_count c + 1
      in c\<lparr>c_count := cnt, c_mean := c_mean c + (val - c_mean c) / cnt\<rparr>)"

definition New :: "real \<Rightarrow> TDigest" where
  "New compression =
     \<lparr>d_centroids = [], d_compression = compression, d_count = 0, d_nCentroids = 0,
      d_p5Centroid = 0, d_p95Centroid = 0, d_appendLower = False\<rparr>"

subsection \<open>The locator\<close>

text \<open>
  The final \<open>for i, c := range d.centroids[left+1:]\<close>: the first element with
  \<open>val < c.mean\<close> ends the function with \<open>left + i\<close>; \<open>None\<close> is the loop running out.
\<close>

fun scanFrom :: "centroid list \<Rightarrow> real \<Rightarrow> int \<Rightarrow> int option" where
  "scanFrom [] val k = None"
| "scanFrom (c # cs) val k = (if val < c_mean c then Some k else scanFrom cs val (k + 1))"

definition linearSearch :: "centroid list \<Rightarrow> real \<Rightarrow> int \<Rightarrow> int \<Rightarrow> panic + int" where
  "linearSearch cs val left right =
     (case sliceFrom cs (left + 1) of
        Inl e \<Rightarrow> Inl e
      | Inr rest \<Rightarrow>
          (case scanFrom rest val left of
             Some k \<Rightarrow> Inr k
           | None \<Rightarrow> Inr (right - 1)))"

text \<open>
  The binary-search loop of \<open>nearest\<close>, followed by the linear search once the window is
  at most \<open>binarySearchThreshold\<close> wide.
\<close>

function nearestLoop :: "centroid list \<Rightarrow> real \<Rightarrow> int \<Rightarrow> int \<Rightarrow> panic + int" where
  "nearestLoop cs val left right =
     (if right - left > binarySearchThreshold then
        (let middle = left + (right - left) sdiv 2
         in case index cs middle of
              Inl e \<Rightarrow> Inl e
            | Inr cm \<Rightarrow>
                if c_mean cm < val then
                  (case index cs (middle + 1) of
                     Inl e \<Rightarrow> Inl e
                   | Inr cn \<Rightarrow>
                       if val < c_mean cn then Inr middle
                       else nearestLoop cs val (middle + 1) right)
                else
                  (case index cs (middle - 1) of
                     Inl e \<Rightarrow> Inl e
                   | Inr cp \<Rightarrow>
                       if c_mean cp < val then Inr (middle - 1)
                       else nearestLoop cs val left middle))
      else linearSearch cs val left right)"
  by pat_completeness auto
termination
  by (relation "measure (\<lambda>(cs, val, left, right). nat (right - left))")
     (auto simp: binarySearchThreshold_def signed_divide_int_def sgn_if)

declare nearestLoop.simps [simp del]

definition nearest :: "TDigest \<Rightarrow> real \<Rightarrow> panic + int" where
  "nearest d val =
     (case index (d_centroids d) (d_p5Centroid d) of
        Inl e \<Rightarrow> Inl e
      | Inr c5 \<Rightarrow>
          if c_mean c5 < val then
            (case index (d_centroids d) (d_p95Centroid d) of
               Inl e \<Rightarrow> Inl e
             | Inr c95 \<Rightarrow>
                 nearestLoop (d_centroids d) val (d_p5Centroid d)
                   (if val < c_mean c95 then d_p95Centroid d + 1 else d_nCentroids d))
          else nearestLoop (d_centroids d) val 0 (d_p5Centroid d))"

subsection \<open>The capacity policy\<close>

definition total :: "centroid list \<Rightarrow> real" where
  "total cs = foldl (\<lambda>t c. t + c_count c) 0 cs"

definition quantileOf :: "TDigest \<Rightarrow> int \<Rightarrow> panic + real" where
  "quantileOf d idx =
     (if idx > d_nCentroids d sdiv 2 then
        (case sliceFrom (d_centroids d) (idx + 1) of
           Inl e \<Rightarrow> Inl e
         | Inr upper \<Rightarrow>
             (case index (d_centroids d) idx of
                Inl e \<Rightarrow> Inl e
              | Inr c \<Rightarrow> Inr (1 - (c_count c / 2 + total upper) / d_count d)))
      else
        (case sliceTo (d_centroids d) idx of
           Inl e \<Rightarrow> Inl e
         | Inr lower \<Rightarrow>
             (case index (d_centroids d) idx of
                Inl e \<Rightarrow> Inl e
              | Inr c \<Rightarrow> Inr ((c_count c / 2 + total lower) / d_count d))))"

text \<open>
  \<open>hasRoom(idx, c)\<close> is only called with \<open>c = d.centroids[idx]\<close>; it writes the two cache
  fields through \<open>c\<close> and returns the comparison.
\<close>

definition hasRoom :: "TDigest \<Rightarrow> int \<Rightarrow> panic + (bool \<times> TDigest)" where
  "hasRoom d idx =
     (case quantileOf d idx of
        Inl e \<Rightarrow> Inl e
      | Inr ptile \<Rightarrow>
          (case index (d_centroids d) idx of
             Inl e \<Rightarrow> Inl e
           | Inr c \<Rightarrow>
               (let c' = c\<lparr>c_maxCount :=
                             4 * d_compression d * ptile * (1 - ptile) * of_int (d_nCentroids d),
                           c_nCentroids := d_nCentroids d\<rparr>
                in Inr (c_count c' < c_maxCount c',
                        d\<lparr>d_centroids := (d_centroids d)[nat idx := c']\<rparr>))))"

text \<open>
  The expression
  \<open>(c.count < c.maxCount) || (c.nCentroids != d.nCentroids && d.hasRoom(idx, c))\<close>
  that \<open>add\<close> evaluates for \<open>left\<close> and for \<open>right\<close>, with Go's short-circuit order.
\<close>

definition roomCheck :: "TDigest \<Rightarrow> int \<Rightarrow> panic + (bool \<times> TDigest)" where
  "roomCheck d idx =
     (case index (d_centroids d) idx of
        Inl e \<Rightarrow> Inl e
      | Inr c \<Rightarrow>
          if c_count c < c_maxCount c then Inr (True, d)
          else if c_nCentroids c \<noteq> d_nCentroids d then hasRoom d idx
          else Inr (False, d))"

subsection \<open>Insertion\<close>

definition addCentroid :: "TDigest \<Rightarrow> int \<Rightarrow> real \<Rightarrow> panic + TDigest" where
  "addCentroid d idx mean =
     (let n = d_nCentroids d + 1; cs = d_centroids d
      in if idx < 0 \<or> int (length cs) < idx then Inl SliceBoundsOutOfRange
         else
           (let cs' = take (nat idx) cs
                      @ [\<lparr>c_mean = mean, c_count = 1, c_maxCount = 0, c_nCentroids = 0\<rparr>]
                      @ drop (nat idx) cs;
                d' = d\<lparr>d_centroids := cs', d_nCentroids := n\<rparr>
            in Inr (if 3 \<le> n
                    then d'\<lparr>d_p5Centroid := (n * 3) sdiv 8, d_p95Centroid := (n * 5) sdiv 8 + 1\<rparr>
                    else d')))"

text \<open>\<open>c.inc(val)\<close> through the pointer held in slot \<open>idx\<close>, which the caller has read.\<close>

definition incAt :: "TDigest \<Rightarrow> int \<Rightarrow> real \<Rightarrow> TDigest" where
  "incAt d idx val =
     d\<lparr>d_centroids := (d_centroids d)[nat idx := inc (d_centroids d ! nat idx) val]\<rparr>"

definition add :: "TDigest \<Rightarrow> real \<Rightarrow> panic + TDigest" where
  "add d val =
     (if d_nCentroids d = 0 then addCentroid d 0 val
      else if d_nCentroids d = 1 then
        (case index (d_centroids d) 0 of
           Inl e \<Rightarrow> Inl e
         | Inr centroid \<Rightarrow>
             if c_count centroid < d_compression d then Inr (incAt d 0 val)
             else if val < c_mean centroid then addCentroid d 0 val
             else addCentroid d 1 val)
      else
        (case nearest d val of
           Inl e \<Rightarrow> Inl e
         | Inr leftIdx \<Rightarrow>
             (case roomCheck d leftIdx of
                Inl e \<Rightarrow> Inl e
              | Inr (leftHasRoom, d1) \<Rightarrow>
                  if val < c_mean (d_centroids d1 ! nat leftIdx) then
                    (if leftHasRoom then Inr (incAt d1 leftIdx val)
                     else addCentroid d1 0 val)
                  else if leftIdx = int (length (d_centroids d1)) - 1 then
                    (if leftHasRoom then Inr (incAt d1 leftIdx val)
                     else addCentroid d1 (int (length (d_centroids d1))) val)
                  else
                    (case roomCheck d1 (leftIdx + 1) of
                       Inl e \<Rightarrow> Inl e
                     | Inr (rightHasRoom, d2) \<Rightarrow>
                         if leftHasRoom \<and> rightHasRoom then
                           Inr ((if d_appendLower d2 then incAt d2 leftIdx val
                                 else incAt d2 (leftIdx + 1) val)
                                \<lparr>d_appendLower := \<not> d_appendLower d2\<rparr>)
                         else if leftHasRoom \<and> \<not> rightHasRoom then Inr (incAt d2 leftIdx val)
                         else if \<not> leftHasRoom \<and> rightHasRoom then
                           Inr (incAt d2 (leftIdx + 1) val)
                         else addCentroid d2 (leftIdx + 1) val))))"

definition Add :: "TDigest \<Rightarrow> real \<Rightarrow> panic + TDigest" where
  "Add d val =
     (case add d val of
        Inl e \<Rightarrow> Inl e
      | Inr d' \<Rightarrow> Inr (d'\<lparr>d_count := d_count d' + 1\<rparr>))"

text \<open>A sequence of \<open>Add\<close> calls; a panic ends the run.\<close>

fun Adds :: "TDigest \<Rightarrow> real list \<Rightarrow> panic + TDigest" where
  "Adds d [] = Inr d"
| "Adds d (v # vs) = (case Add d v of Inl e \<Rightarrow> Inl e | Inr d' \<Rightarrow> Adds d' vs)"

subsection \<open>The quantile query\<close>

text \<open>
  The loop of \<open>Quantile\<close> over \<open>d.centroids\<close> from position \<open>i\<close> on, returning \<open>qTotal\<close>
  and \<open>idx\<close> as they are when the loop is left, by \<open>break\<close> or at the end of the slice.
\<close>

fun findAnchor :: "centroid list \<Rightarrow> real \<Rightarrow> real \<Rightarrow> int \<Rightarrow> int \<Rightarrow> real \<times> int" where
  "findAnchor [] q qTotal i idx = (qTotal, idx)"
| "findAnchor (c # cs) q qTotal i idx =
     (if qTotal + c_count c / 2 \<ge> q then (qTotal, i)
      else findAnchor cs q (qTotal + c_count c) (i + 1) i)"

definition Quantile :: "TDigest \<Rightarrow> real \<Rightarrow> panic + qvalue" where
  "Quantile d q0 =
     (let cs = d_centroids d; n = int (length cs)
      in if n = 0 then Inr NaN
         else if n = 1 then
           (case index cs 0 of Inl e \<Rightarrow> Inl e | Inr c \<Rightarrow> Inr (Finite (c_mean c)))
         else
           (let q1 = (if q0 < 0 then 0 else if q0 > 1 then 1 else q0);
                q = d_count d * q1;
                (qTotal, idx) = findAnchor cs q 0 0 0
            in if idx = 0 then
                 (case index cs 0 of
                    Inl e \<Rightarrow> Inl e
                  | Inr c0 \<Rightarrow>
                      (case index cs 1 of
                         Inl e \<Rightarrow> Inl e
                       | Inr c1 \<Rightarrow>
                           (let slope = 2 * (c_mean c1 - c_mean c0) / (c_count c1 + c_count c0);
                                deltaQ = q - c_count c0 / 2
                            in Inr (Finite (c_mean c0 + slope * deltaQ)))))
               else if idx = n - 1 then
                 (case index cs (n - 2) of
                    Inl e \<Rightarrow> Inl e
                  | Inr c0 \<Rightarrow>
                      (case index cs (n - 1) of
                         Inl e \<Rightarrow> Inl e
                       | Inr c1 \<Rightarrow>
                           (let slope = 2 * (c_mean c1 - c_mean c0) / (c_count c1 + c_count c0);
                                deltaQ = q - (qTotal - c_count c1 / 2)
                            in Inr (Finite (c_mean c1 + slope * deltaQ)))))
               else
                 (case index cs (idx - 1) of
                    Inl e \<Rightarrow> Inl e
                  | Inr c0 \<Rightarrow>
                      (case index cs idx of
                         Inl e \<Rightarrow> Inl e
                       | Inr c1 \<Rightarrow>
                           (let slope = 2 * (c_mean c1 - c_mean c0) / (c_count c1 + c_count c0);
                                deltaQ = q - (c_count c1 / 2 + qTotal)
                            in Inr (Finite (c_mean c1 + slope * deltaQ)))))))"

subsection \<open>Invariants of the store\<close>

text \<open>
  \<open>addCentroid\<close> is the only writer of \<open>nCentroids\<close>, \<open>p5Centroid\<close> and
  \<open>p95Centroid\<close>, so the two cached indices are a function of the number of centroids.
\<close>

definition cachedIndices :: "TDigest \<Rightarrow> bool" where
  "cachedIndices d \<longleftrightarrow>
     (if 3 \<le> d_nCentroids d
      then d_p5Centroid d = (d_nCentroids d * 3) div 8 \<and>
           d_p95Centroid d = (d_nCentroids d * 5) div 8 + 1
      else d_p5Centroid d = 0 \<and> d_p95Centroid d = 0)"

text \<open>
  What every \<open>add\<close> keeps: the cached length is the length, the means ascend, every
  centroid holds at least one value, and the cached indices are those of the length.
\<close>

definition shape :: "TDigest \<Rightarrow> bool" where
  "shape d \<longleftrightarrow>
     d_nCentroids d = int (length (d_centroids d)) \<and>
     sorted (map c_mean (d_centroids d)) \<and>
     list_all (\<lambda>c. 1 \<le> c_count c) (d_centroids d) \<and>
     cachedIndices d"

text \<open>The sum of the \<open>count\<close> fields of the store.\<close>

definition weight :: "TDigest \<Rightarrow> real" where
  "weight d = sum_list (map c_count (d_centroids d))"

text \<open>
  What the locator owes \<open>add\<close>: \<open>r\<close> is \<open>-1\<close>, or an index such that the value is
  below the mean at \<open>r\<close> only when \<open>r\<close> is the first index, and is at most the mean of
  the successor when there is one.
\<close>

definition bracket :: "centroid list \<Rightarrow> real \<Rightarrow> int \<Rightarrow> bool" where
  "bracket cs val r \<longleftrightarrow>
     r = - 1 \<or>
     (0 \<le> r \<and> r < int (length cs) \<and>
      (val < c_mean (cs ! nat r) \<longrightarrow> r = 0) \<and>
      (r + 1 < int (length cs) \<longrightarrow> val \<le> c_mean (cs ! nat (r + 1))))"

text \<open>
  \<open>d'\<close> is \<open>d\<close> up to the two cache fields of its centroids, which is all that
  \<open>hasRoom\<close> writes.
\<close>

definition sameStore :: "TDigest \<Rightarrow> TDigest \<Rightarrow> bool" where
  "sameStore d d' \<longleftrightarrow>
     d' = d\<lparr>d_centroids := d_centroids d'\<rparr> \<and>
     map c_mean (d_centroids d') = map c_mean (d_centroids d) \<and>
     map c_count (d_centroids d') = map c_count (d_centroids d)"

text \<open>What one \<open>add\<close> does to the invariants: the shape stays and the weight grows by one.\<close>

definition grown :: "TDigest \<Rightarrow> TDigest \<Rightarrow> bool" where
  "grown d d' \<longleftrightarrow>
     shape d' \<and> weight d' = weight d + 1 \<and> d_count d' = d_count d \<and>
     d_compression d' = d_compression d"

subsection \<open>The terms of the specification\<close>






subsection \<open>Example states\<close>

text \<open>The digest after \<open>New(1); Add(0); Add(1)\<close>.\<close>

definition zeroOne :: TDigest where
  "zeroOne =
     \<lparr>d_centroids = [\<lparr>c_mean = 0, c_count = 1, c_maxCount = 0, c_nCentroids = 0\<rparr>,
                     \<lparr>c_mean = 1, c_count = 1, c_maxCount = 0, c_nCentroids = 0\<rparr>],
      d_compression = 1, d_count = 2, d_nCentroids = 2,
      d_p5Centroid = 0, d_p95Centroid = 0, d_appendLower = False\<rparr>"

text \<open>The digest after \<open>New(1); Add(5); Add(5)\<close>.\<close>

definition fiveFive :: TDigest where
  "fiveFive =
     \<lparr>d_centroids = [\<lparr>c_mean = 5, c_count = 1, c_maxCount = 0, c_nCentroids = 0\<rparr>,
                     \<lparr>c_mean = 5, c_count = 1, c_maxCount = 0, c_nCentroids = 0\<rparr>],
      d_compression = 1, d_count = 2, d_nCentroids = 2,
      d_p5Centroid = 0, d_p95Centroid = 0, d_appendLower = False\<rparr>"

text \<open>The digest after \<open>New(1)\<close> and \<open>Add\<close> of 0, 2, 1, 1, 1.\<close>

definition afterFive :: TDigest where
  "afterFive =
     \<lparr>d_centroids = [\<lparr>c_mean = 1 / 2, c_count = 2, c_maxCount = 3 / 2, c_nCentroids = 2\<rparr>,
                     \<lparr>c_mean = 1, c_count = 1, c_maxCount = 0, c_nCentroids = 0\<rparr>,
                     \<lparr>c_mean = 3 / 2, c_count = 2, c_maxCount = 3 / 2, c_nCentroids = 2\<rparr>],
      d_compression = 1, d_count = 5, d_nCentroids = 3,
      d_p5Centroid = 1, d_p95Centroid = 2, d_appendLower = True\<rparr>"

text \<open>The digest after \<open>New(1); Add(0); Add(2)\<close>.\<close>

definition zeroTwo :: TDigest where
  "zeroTwo =
     \<lparr>d_centroids = [\<lparr>c_mean = 0, c_count = 1, c_maxCount = 0, c_nCentroids = 0\<rparr>,
                     \<lparr>c_mean = 2, c_count = 1, c_maxCount = 0, c_nCentroids = 0\<rparr>],
      d_compression = 1, d_count = 2, d_nCentroids = 2,
      d_p5Centroid = 0, d_p95Centroid = 0, d_appendLower = False\<rparr>"

section \<open>Evaluation\<close>

lemmas tdigest_defs =
  Add_def add_def addCentroid_def New_def index_def nearest_def
  nearestLoop.simps linearSearch_def sliceFrom_def sliceTo_def roomCheck_def hasRoom_def
  quantileOf_def total_def incAt_def inc_def binarySearchThreshold_def
  signed_divide_int_def Let_def

lemma Adds_zeroOne: "Adds (New 1) [0, 1] = Inr zeroOne"
  by (simp add: tdigest_defs zeroOne_def)

lemma Adds_fiveFive: "Adds (New 1) [5, 5] = Inr fiveFive"
  by (simp add: tdigest_defs fiveFive_def)

lemma Adds_zeroTwo: "Adds (New 1) [0, 2] = Inr zeroTwo"
  by (simp add: tdigest_defs zeroTwo_def)

lemma Adds_afterFive: "Adds (New 1) [0, 2, 1, 1, 1] = Inr afterFive"
  by (simp add: tdigest_defs afterFive_def)

section \<open>The quantile query\<close>

text \<open>
  C8. \<open>Quantile\<close> on a freshly constructed digest returns the not-a-number sentinel, for
  every compression and every argument, and does not fail.
\<close>

theorem Quantile_New_NaN: "Quantile (New c) q = Inr NaN \<and> isNaN NaN"
  by (simp add: Quantile_def New_def)

text \<open>
  C7. For every compression \<open>c\<close>, value \<open>v\<close> and argument \<open>q\<close>, the digest after
  \<open>New(c); Add(v)\<close> exists and \<open>Quantile(q)\<close> on it returns exactly \<open>v\<close>.
\<close>

theorem Quantile_single_value:
  "\<exists>d. Add (New c) v = Inr d \<and> Quantile d q = Inr (Finite v)"
  by (simp add: Add_def add_def addCentroid_def New_def Quantile_def index_def)

text \<open>
  C9. For every digest state, an argument below 0 gives the result of \<open>Quantile(0)\<close> and
  an argument above 1 gives the result of \<open>Quantile(1)\<close>.
\<close>

theorem Quantile_clamps:
  "(q < 0 \<longrightarrow> Quantile d q = Quantile d 0) \<and> (1 < q \<longrightarrow> Quantile d q = Quantile d 1)"
  by (simp add: Quantile_def)

theorem Quantile_clamps_witness:
  "Quantile zeroOne (- 1) = Quantile zeroOne 0 \<and> Quantile zeroOne 2 = Quantile zeroOne 1"
  using Quantile_clamps [of "- 1" zeroOne] Quantile_clamps [of 2 zeroOne] by simp

text \<open>
  C10. The estimator extrapolates below the smallest mean: the digest after
  \<open>New(1); Add(0); Add(1)\<close> has two centroids, of means 0 and 1, and \<open>Quantile(0)\<close>
  is \<open>-1/2\<close>, strictly less than the smallest centroid mean.
\<close>

theorem Quantile_extrapolates:
  "\<exists>c vs d r. Adds (New c) vs = Inr d \<and> 2 \<le> length (d_centroids d) \<and>
       Quantile d 0 = Inr (Finite r) \<and> r < Min (set (map c_mean (d_centroids d)))"
proof -
  have "Quantile zeroOne 0 = Inr (Finite (- (1 / 2)))"
    by (simp add: Quantile_def zeroOne_def index_def)
  moreover have "Min (set (map c_mean (d_centroids zeroOne))) = 0"
    by (simp add: zeroOne_def)
  moreover have "2 \<le> length (d_centroids zeroOne)"
    by (simp add: zeroOne_def)
  ultimately show ?thesis
    using Adds_zeroOne by (intro exI [of _ 1] exI [of _ "[0, 1]"] exI [of _ zeroOne] exI [of _ "- (1 / 2)"]) simp
qed

text \<open>
  C1. Monotonicity fails on the digest after \<open>New(1); Add(0); Add(1)\<close>:
  \<open>Quantile(3/4)\<close> is 2 and \<open>Quantile(1)\<close> is \<open>3/2\<close>. At \<open>3/4\<close> the loop leaves by
  \<open>break\<close> at the last centroid with \<open>qTotal\<close> the weight before it; at 1 the loop runs
  out with \<open>qTotal\<close> the whole weight. The last-centroid branch subtracts
  \<open>c1.count/2\<close> from \<open>qTotal\<close> in both cases.
\<close>

theorem Quantile_not_monotone:
  "Adds (New 1) [0, 1] = Inr zeroOne \<and>
   Quantile zeroOne (3 / 4) = Inr (Finite 2) \<and>
   Quantile zeroOne 1 = Inr (Finite (3 / 2))"
  by (simp add: tdigest_defs Quantile_def zeroOne_def)

section \<open>The locator on a sorted store\<close>

lemma index_Inr: "0 \<le> i \<Longrightarrow> i < int (length xs) \<Longrightarrow> index xs i = Inr (xs ! nat i)"
  by (simp add: index_def)

lemma sdiv_nonneg: "0 \<le> k \<Longrightarrow> 0 < l \<Longrightarrow> k sdiv l = k div (l::int)"
  by (simp add: signed_divide_int_def sgn_if)

lemma sorted_means_le:
  "sorted (map c_mean cs) \<Longrightarrow> 0 \<le> i \<Longrightarrow> i \<le> j \<Longrightarrow> j < int (length cs) \<Longrightarrow>
   c_mean (cs ! nat i) \<le> c_mean (cs ! nat j)"
  using sorted_nth_mono [of "map c_mean cs" "nat i" "nat j"] by simp

lemma scanFrom_None: "scanFrom xs val k = None \<Longrightarrow> c \<in> set xs \<Longrightarrow> c_mean c \<le> val"
  by (induction xs arbitrary: k) (auto split: if_splits)

lemma scanFrom_Some:
  "scanFrom xs val k = Some r \<Longrightarrow>
   k \<le> r \<and> r < k + int (length xs) \<and> val < c_mean (xs ! nat (r - k)) \<and>
   (\<forall>j. k \<le> j \<and> j < r \<longrightarrow> c_mean (xs ! nat (j - k)) \<le> val)"
proof (induction xs arbitrary: k)
  case Nil
  then show ?case by simp
next
  case (Cons c xs)
  show ?case
  proof (cases "val < c_mean c")
    case True
    with Cons.prems show ?thesis by simp
  next
    case False
    with Cons.prems have rec: "scanFrom xs val (k + 1) = Some r" by simp
    note ih = Cons.IH [OF rec]
    from ih have kr: "k + 1 \<le> r" by simp
    then have idx: "nat (r - k) = Suc (nat (r - (k + 1)))" by linarith
    have "\<And>j. k \<le> j \<Longrightarrow> j < r \<Longrightarrow> c_mean ((c # xs) ! nat (j - k)) \<le> val"
    proof -
      fix j assume j: "k \<le> j" "j < r"
      show "c_mean ((c # xs) ! nat (j - k)) \<le> val"
      proof (cases "j = k")
        case True
        with False show ?thesis by simp
      next
        case False
        with j have "k + 1 \<le> j" by simp
        then have "nat (j - k) = Suc (nat (j - (k + 1)))" by linarith
        with ih \<open>k + 1 \<le> j\<close> j show ?thesis by simp
      qed
    qed
    with ih kr idx show ?thesis by simp
  qed
qed

lemma linearSearch_bracket:
  assumes srt: "sorted (map c_mean cs)"
    and l: "0 \<le> left" "left < int (length cs)" "left \<le> right" "right \<le> int (length cs)"
    and lo: "left = 0 \<or> c_mean (cs ! nat left) \<le> val"
    and hi: "right = int (length cs) \<or> val \<le> c_mean (cs ! nat right)"
  shows "\<exists>r. linearSearch cs val left right = Inr r \<and> bracket cs val r"
proof -
  define rest where "rest = drop (nat (left + 1)) cs"
  have sl: "sliceFrom cs (left + 1) = Inr rest"
    using l by (simp add: sliceFrom_def rest_def)
  have len: "int (length rest) = int (length cs) - (left + 1)"
    using l by (simp add: rest_def)
  have nth_rest: "rest ! nat (j - (left + 1)) = cs ! nat j"
    if "left + 1 \<le> j" "j < int (length cs)" for j
  proof -
    have "nat (left + 1) + nat (j - (left + 1)) = nat j" using that l by linarith
    moreover have "nat (left + 1) + nat (j - (left + 1)) < length cs" using that l by linarith
    ultimately show ?thesis by (simp add: rest_def)
  qed
  show ?thesis
  proof (cases "scanFrom rest val left")
    case (Some k)
    from scanFrom_Some [OF Some]
    have s1: "left \<le> k" and s2: "k < left + int (length rest)"
      and s3: "val < c_mean (rest ! nat (k - left))"
      and s4: "\<And>j. left \<le> j \<Longrightarrow> j < k \<Longrightarrow> c_mean (rest ! nat (j - left)) \<le> val"
      by blast+
    have k: "k + 1 < int (length cs)" using s2 len by linarith
    have "rest ! nat (k - left) = cs ! nat (k + 1)"
      using nth_rest [of "k + 1"] s1 k by simp
    with s3 have up: "val < c_mean (cs ! nat (k + 1))" by simp
    have low: "val < c_mean (cs ! nat k) \<longrightarrow> k = 0"
    proof (cases "k = left")
      case True
      with lo show ?thesis by auto
    next
      case False
      with s1 have lk: "left + 1 \<le> k" by simp
      then have "c_mean (rest ! nat (k - 1 - left)) \<le> val" using s4 [of "k - 1"] by simp
      moreover have "rest ! nat (k - 1 - left) = cs ! nat k"
        using nth_rest [of k] lk k by (simp add: algebra_simps)
      ultimately show ?thesis by simp
    qed
    have "bracket cs val k"
      unfolding bracket_def using s1 k l up low by auto
    with sl Some show ?thesis by (simp add: linearSearch_def)
  next
    case None
    have above: "c_mean (cs ! nat j) \<le> val" if "left < j" "j < int (length cs)" for j
    proof -
      have "nat (j - (left + 1)) < length rest" using that len l by linarith
      then have "rest ! nat (j - (left + 1)) \<in> set rest" by simp
      with nth_rest [of j] that have "cs ! nat j \<in> set rest" by simp
      with None show ?thesis by (rule scanFrom_None)
    qed
    have "bracket cs val (right - 1)"
    proof (cases "right = 0")
      case True
      then show ?thesis by (simp add: bracket_def)
    next
      case nz: False
      with l have r0: "0 \<le> right - 1" "right - 1 < int (length cs)" by simp_all
      have low: "c_mean (cs ! nat (right - 1)) \<le> val" if "right - 1 \<noteq> 0"
      proof (cases "left < right - 1")
        case True
        with r0 show ?thesis by (simp add: above)
      next
        case False
        with that l nz have "left \<noteq> 0" "right - 1 \<le> left" by simp_all
        with lo have "c_mean (cs ! nat left) \<le> val" by simp
        moreover have "c_mean (cs ! nat (right - 1)) \<le> c_mean (cs ! nat left)"
          using srt r0 \<open>right - 1 \<le> left\<close> l by (intro sorted_means_le) simp_all
        ultimately show ?thesis by simp
      qed
      have up: "val \<le> c_mean (cs ! nat right)" if "right < int (length cs)"
        using hi that by simp
      have low': "val < c_mean (cs ! nat (right - 1)) \<longrightarrow> right - 1 = 0"
        using low by fastforce
      have up': "right - 1 + 1 < int (length cs) \<longrightarrow> val \<le> c_mean (cs ! nat (right - 1 + 1))"
        using up by simp
      show ?thesis
        unfolding bracket_def using r0 low' up' by blast
    qed
    with sl None show ?thesis by (simp add: linearSearch_def)
  qed
qed

lemma nearestLoop_bracket:
  "sorted (map c_mean cs) \<Longrightarrow> 0 \<le> left \<Longrightarrow> left < int (length cs) \<Longrightarrow> left \<le> right \<Longrightarrow>
   right \<le> int (length cs) \<Longrightarrow> left = 0 \<or> c_mean (cs ! nat left) \<le> val \<Longrightarrow>
   right = int (length cs) \<or> val \<le> c_mean (cs ! nat right) \<Longrightarrow>
   \<exists>r. nearestLoop cs val left right = Inr r \<and> bracket cs val r"
proof (induction cs val left right rule: nearestLoop.induct)
  case (1 cs val left right)
  show ?case
  proof (cases "right - left > binarySearchThreshold")
    case False
    then have "nearestLoop cs val left right = linearSearch cs val left right"
      by (simp add: nearestLoop.simps)
    with linearSearch_bracket [OF "1.prems"] show ?thesis by simp
  next
    case wide: True
    define middle where "middle = left + (right - left) sdiv 2"
    have diff: "32 < right - left" using wide by (simp add: binarySearchThreshold_def)
    then have mid: "middle = left + (right - left) div 2"
      by (simp add: middle_def sdiv_nonneg)
    have m: "left < middle - 1" "middle + 1 < right" using diff mid by linarith+
    have ix: "index cs middle = Inr (cs ! nat middle)"
      "index cs (middle + 1) = Inr (cs ! nat (middle + 1))"
      "index cs (middle - 1) = Inr (cs ! nat (middle - 1))"
      using m "1.prems" by (simp_all add: index_def)
    show ?thesis
    proof (cases "c_mean (cs ! nat middle) < val")
      case above: True
      show ?thesis
      proof (cases "val < c_mean (cs ! nat (middle + 1))")
        case True
        have "bracket cs val middle"
          unfolding bracket_def using above True m "1.prems" by auto
        moreover have "nearestLoop cs val left right = Inr middle"
          using wide above True ix
          by (subst nearestLoop.simps) (simp add: middle_def [symmetric])
        ultimately show ?thesis by simp
      next
        case False
        have eq: "nearestLoop cs val left right = nearestLoop cs val (middle + 1) right"
          using wide above False ix
          by (subst nearestLoop.simps) (simp add: middle_def [symmetric])
        have "\<exists>r. nearestLoop cs val (middle + 1) right = Inr r \<and> bracket cs val r"
        proof (rule "1.IH"(1) [OF wide middle_def ix(1) above ix(2) False])
          show "sorted (map c_mean cs)" by (rule "1.prems")
          show "0 \<le> middle + 1" using m "1.prems" by simp
          show "middle + 1 < int (length cs)" using m "1.prems" by simp
          show "middle + 1 \<le> right" using m by simp
          show "right \<le> int (length cs)" by (rule "1.prems")
          show "middle + 1 = 0 \<or> c_mean (cs ! nat (middle + 1)) \<le> val" using False by simp
          show "right = int (length cs) \<or> val \<le> c_mean (cs ! nat right)" by (rule "1.prems")
        qed
        with eq show ?thesis by simp
      qed
    next
      case below: False
      show ?thesis
      proof (cases "c_mean (cs ! nat (middle - 1)) < val")
        case True
        have "bracket cs val (middle - 1)"
          unfolding bracket_def using below True m "1.prems" by auto
        moreover have "nearestLoop cs val left right = Inr (middle - 1)"
          using wide below True ix
          by (subst nearestLoop.simps) (simp add: middle_def [symmetric])
        ultimately show ?thesis by simp
      next
        case False
        have eq: "nearestLoop cs val left right = nearestLoop cs val left middle"
          using wide below False ix
          by (subst nearestLoop.simps) (simp add: middle_def [symmetric])
        have "\<exists>r. nearestLoop cs val left middle = Inr r \<and> bracket cs val r"
        proof (rule "1.IH"(2) [OF wide middle_def ix(1) below ix(3) False])
          show "sorted (map c_mean cs)" by (rule "1.prems")
          show "0 \<le> left" by (rule "1.prems")
          show "left < int (length cs)" by (rule "1.prems")
          show "left \<le> middle" using m by simp
          show "middle \<le> int (length cs)" using m "1.prems" by simp
          show "left = 0 \<or> c_mean (cs ! nat left) \<le> val" by (rule "1.prems")
          show "middle = int (length cs) \<or> val \<le> c_mean (cs ! nat middle)" using below by simp
        qed
        with eq show ?thesis by simp
      qed
    qed
  qed
qed

lemma cachedIndices_bounds:
  assumes "cachedIndices d" "2 \<le> d_nCentroids d"
  shows "0 \<le> d_p5Centroid d" "d_p5Centroid d \<le> d_p95Centroid d" "d_p95Centroid d < d_nCentroids d"
  using assms by (auto simp: cachedIndices_def split: if_splits)

lemma nearest_bracket:
  assumes sh: "shape d" and n2: "2 \<le> length (d_centroids d)"
  shows "\<exists>r. nearest d val = Inr r \<and> bracket (d_centroids d) val r"
proof -
  define cs where "cs = d_centroids d"
  define p5 where "p5 = d_p5Centroid d"
  define p95 where "p95 = d_p95Centroid d"
  from sh have n: "d_nCentroids d = int (length cs)" and srt: "sorted (map c_mean cs)"
    and ci: "cachedIndices d"
    by (simp_all add: shape_def cs_def)
  have b: "0 \<le> p5" "p5 \<le> p95" "p95 < int (length cs)"
    using cachedIndices_bounds [OF ci] n n2 by (simp_all add: p5_def p95_def cs_def)
  have ix: "index cs p5 = Inr (cs ! nat p5)" "index cs p95 = Inr (cs ! nat p95)"
    using b by (simp_all add: index_def)
  show ?thesis
  proof (cases "c_mean (cs ! nat p5) < val")
    case True
    define right where "right = (if val < c_mean (cs ! nat p95) then p95 + 1 else int (length cs))"
    have eq: "nearest d val = nearestLoop cs val p5 right"
      using True ix n by (simp add: nearest_def cs_def [symmetric] p5_def [symmetric]
          p95_def [symmetric] right_def)
    have hi: "right = int (length cs) \<or> val \<le> c_mean (cs ! nat right)"
    proof (cases "val < c_mean (cs ! nat p95) \<and> p95 + 1 < int (length cs)")
      case True
      then have "c_mean (cs ! nat p95) \<le> c_mean (cs ! nat (p95 + 1))"
        using srt b by (intro sorted_means_le) simp_all
      with True show ?thesis by (simp add: right_def)
    next
      case False
      with b show ?thesis by (auto simp: right_def)
    qed
    have "\<exists>r. nearestLoop cs val p5 right = Inr r \<and> bracket cs val r"
    proof (rule nearestLoop_bracket [OF srt _ _ _ _ _ hi])
      show "0 \<le> p5" "p5 < int (length cs)" using b by simp_all
      show "p5 \<le> right" "right \<le> int (length cs)" using b by (simp_all add: right_def)
      show "p5 = 0 \<or> c_mean (cs ! nat p5) \<le> val" using True by simp
    qed
    with eq show ?thesis by (simp add: cs_def)
  next
    case False
    have eq: "nearest d val = nearestLoop cs val 0 p5"
      using False ix by (simp add: nearest_def cs_def [symmetric] p5_def [symmetric])
    have "\<exists>r. nearestLoop cs val 0 p5 = Inr r \<and> bracket cs val r"
    proof (rule nearestLoop_bracket [OF srt])
      show "(0::int) \<le> 0" "0 < int (length cs)" "0 \<le> p5" "p5 \<le> int (length cs)"
        using b by linarith+
      show "(0::int) = 0 \<or> c_mean (cs ! nat 0) \<le> val" by simp
      show "p5 = int (length cs) \<or> val \<le> c_mean (cs ! nat p5)" using False by simp
    qed
    with eq show ?thesis by (simp add: cs_def)
  qed
qed

section \<open>Refreshing a capacity cache\<close>

lemma quantileOf_total:
  "0 \<le> idx \<Longrightarrow> idx < int (length (d_centroids d)) \<Longrightarrow> \<exists>p. quantileOf d idx = Inr p"
  by (simp add: quantileOf_def sliceFrom_def sliceTo_def index_def)

lemma map_update_same:
  "i < length xs \<Longrightarrow> f y = f (xs ! i) \<Longrightarrow> map f (xs[i := y]) = map f xs"
  by (simp add: map_update list_update_same_conv)

lemma hasRoom_sameStore: "hasRoom d idx = Inr (b, d1) \<Longrightarrow> sameStore d d1"
  by (auto simp: hasRoom_def sameStore_def index_def Let_def map_update_same
      split: sum.splits if_splits)

lemma roomCheck_sameStore: "roomCheck d idx = Inr (b, d1) \<Longrightarrow> sameStore d d1"
  by (auto simp: roomCheck_def sameStore_def split: sum.splits if_splits
      dest: hasRoom_sameStore)

lemma hasRoom_total:
  "0 \<le> idx \<Longrightarrow> idx < int (length (d_centroids d)) \<Longrightarrow> \<exists>b d1. hasRoom d idx = Inr (b, d1)"
  using quantileOf_total [of idx d] by (auto simp: hasRoom_def index_def Let_def)

lemma roomCheck_total:
  "0 \<le> idx \<Longrightarrow> idx < int (length (d_centroids d)) \<Longrightarrow> \<exists>b d1. roomCheck d idx = Inr (b, d1)"
  using hasRoom_total [of idx d] by (auto simp: roomCheck_def index_def)

lemma roomCheck_panics:
  "\<not> (0 \<le> idx \<and> idx < int (length (d_centroids d))) \<Longrightarrow> roomCheck d idx = Inl IndexOutOfRange"
  by (auto simp: roomCheck_def index_def)

lemma sameStore_length: "sameStore d d1 \<Longrightarrow> length (d_centroids d1) = length (d_centroids d)"
  unfolding sameStore_def by (metis length_map)

lemma sameStore_mean:
  "sameStore d d1 \<Longrightarrow> i < length (d_centroids d) \<Longrightarrow>
   c_mean (d_centroids d1 ! i) = c_mean (d_centroids d ! i)"
  unfolding sameStore_def by (metis length_map nth_map)


lemma sameStore_fields:
  assumes "sameStore d d1"
  shows "d_nCentroids d1 = d_nCentroids d" "d_p5Centroid d1 = d_p5Centroid d"
    "d_p95Centroid d1 = d_p95Centroid d" "d_compression d1 = d_compression d"
    "d_count d1 = d_count d" "d_appendLower d1 = d_appendLower d"
proof -
  from assms have "d1 = d\<lparr>d_centroids := d_centroids d1\<rparr>" by (simp add: sameStore_def)
  then have "d_nCentroids d1 = d_nCentroids (d\<lparr>d_centroids := d_centroids d1\<rparr>)"
    "d_p5Centroid d1 = d_p5Centroid (d\<lparr>d_centroids := d_centroids d1\<rparr>)"
    "d_p95Centroid d1 = d_p95Centroid (d\<lparr>d_centroids := d_centroids d1\<rparr>)"
    "d_compression d1 = d_compression (d\<lparr>d_centroids := d_centroids d1\<rparr>)"
    "d_count d1 = d_count (d\<lparr>d_centroids := d_centroids d1\<rparr>)"
    "d_appendLower d1 = d_appendLower (d\<lparr>d_centroids := d_centroids d1\<rparr>)"
    by simp_all
  then show "d_nCentroids d1 = d_nCentroids d" "d_p5Centroid d1 = d_p5Centroid d"
    "d_p95Centroid d1 = d_p95Centroid d" "d_compression d1 = d_compression d"
    "d_count d1 = d_count d" "d_appendLower d1 = d_appendLower d"
    by simp_all
qed

lemma list_all_counts: "list_all (\<lambda>c. 1 \<le> c_count c) cs \<longleftrightarrow> list_all (\<lambda>x. 1 \<le> x) (map c_count cs)"
  by (simp add: list.pred_map comp_def)

lemma sameStore_maps:
  assumes "sameStore d d1"
  shows "map c_mean (d_centroids d1) = map c_mean (d_centroids d)"
    "map c_count (d_centroids d1) = map c_count (d_centroids d)"
  using assms unfolding sameStore_def by blast+

lemma sameStore_shape: "sameStore d d1 \<Longrightarrow> shape d \<Longrightarrow> shape d1"
  by (simp add: shape_def cachedIndices_def list_all_counts sameStore_length
      sameStore_maps sameStore_fields)

lemma sameStore_weight: "sameStore d d1 \<Longrightarrow> weight d1 = weight d"
  by (simp add: weight_def sameStore_maps)


section \<open>Sorted lists and running means\<close>

lemma take_le:
  assumes "sorted xs" "i \<le> length xs" "0 < i \<longrightarrow> xs ! (i - 1) \<le> (x::real)" "y \<in> set (take i xs)"
  shows "y \<le> x"
proof -
  from assms(4) obtain j where j: "j < length (take i xs)" "y = take i xs ! j"
    by (auto simp: in_set_conv_nth)
  then have ji: "j < i" "j < length xs" by simp_all
  then have "xs ! j \<le> xs ! (i - 1)"
    using assms(1,2) by (intro sorted_nth_mono) simp_all
  with assms(3) ji j show ?thesis by simp
qed

lemma drop_ge:
  assumes "sorted xs" "i < length xs \<longrightarrow> (x::real) \<le> xs ! i" "y \<in> set (drop i xs)"
  shows "x \<le> y"
proof -
  from assms(3) obtain j where j: "j < length (drop i xs)" "y = drop i xs ! j"
    by (auto simp: in_set_conv_nth)
  then have ij: "i + j < length xs" by simp
  then have "xs ! i \<le> xs ! (i + j)"
    using assms(1) by (intro sorted_nth_mono) simp_all
  with assms(2) ij j show ?thesis by simp
qed

lemma sorted_insert_at:
  assumes "sorted xs" "i \<le> length xs" "0 < i \<longrightarrow> xs ! (i - 1) \<le> (x::real)"
    "i < length xs \<longrightarrow> x \<le> xs ! i"
  shows "sorted (take i xs @ [x] @ drop i xs)"
  using assms take_le [OF assms(1,2,3)] drop_ge [OF assms(1,4)]
  by (auto simp: sorted_append intro: order_trans)

lemma sorted_update_at:
  assumes "sorted xs" "i < length xs" "0 < i \<longrightarrow> xs ! (i - 1) \<le> (x::real)"
    "Suc i < length xs \<longrightarrow> x \<le> xs ! Suc i"
  shows "sorted (xs[i := x])"
proof -
  have le: "i \<le> length xs" using assms(2) by simp
  have "xs[i := x] = take i xs @ x # drop (Suc i) xs"
    using assms(2) by (rule upd_conv_take_nth_drop)
  moreover have "sorted (take i xs @ x # drop (Suc i) xs)"
    using assms(1) take_le [OF assms(1) le assms(3)] drop_ge [OF assms(1,4)]
    by (auto simp: sorted_append intro: order_trans)
  ultimately show ?thesis by simp
qed

lemma div_le_self_real:
  assumes "0 \<le> (a::real)" "1 \<le> k"
  shows "a / k \<le> a" "0 \<le> a / k"
proof -
  have "a * 1 \<le> a * k" using assms(2,1) by (rule mult_left_mono)
  with assms show "a / k \<le> a" by (simp add: divide_le_eq)
  from assms show "0 \<le> a / k" by simp
qed

lemma inc_mean_up:
  assumes "1 \<le> c_count c" "c_mean c \<le> val"
  shows "c_mean c \<le> c_mean (inc c val)" "c_mean (inc c val) \<le> val"
proof -
  have k: "1 \<le> c_count c + 1" using assms(1) by simp
  have d: "0 \<le> val - c_mean c" using assms(2) by simp
  have "(val - c_mean c) / (c_count c + 1) \<le> val - c_mean c"
    using d k by (rule div_le_self_real)
  moreover have "0 \<le> (val - c_mean c) / (c_count c + 1)"
    using d k by (rule div_le_self_real)
  ultimately show "c_mean c \<le> c_mean (inc c val)" "c_mean (inc c val) \<le> val"
    by (simp_all add: inc_def Let_def)
qed

lemma inc_mean_down:
  assumes "1 \<le> c_count c" "val \<le> c_mean c"
  shows "val \<le> c_mean (inc c val)" "c_mean (inc c val) \<le> c_mean c"
proof -
  have k: "1 \<le> c_count c + 1" using assms(1) by simp
  have d: "0 \<le> c_mean c - val" using assms(2) by simp
  have "(c_mean c - val) / (c_count c + 1) \<le> c_mean c - val"
    using d k by (rule div_le_self_real)
  moreover have "0 \<le> (c_mean c - val) / (c_count c + 1)"
    using d k by (rule div_le_self_real)
  moreover have "(val - c_mean c) / (c_count c + 1) = - ((c_mean c - val) / (c_count c + 1))"
    by (simp add: minus_divide_left)
  ultimately show "val \<le> c_mean (inc c val)" "c_mean (inc c val) \<le> c_mean c"
    by (simp_all add: inc_def Let_def)
qed

lemma inc_count: "c_count (inc c val) = c_count c + 1"
  by (simp add: inc_def Let_def)

lemma sum_list_update_real:
  "i < length xs \<Longrightarrow> sum_list (xs[i := (x::real)]) = sum_list xs - xs ! i + x"
  by (induction xs arbitrary: i) (auto split: nat.splits)

lemma list_all_update:
  "list_all P xs \<Longrightarrow> P x \<Longrightarrow> list_all P (xs[i := x])"
  by (induction xs arbitrary: i) (auto split: nat.splits)

section \<open>One insertion keeps the invariants\<close>

lemma incAt_shape:
  assumes sh: "shape d" and i: "0 \<le> i" "i < int (length (d_centroids d))"
    and lo: "0 < i \<longrightarrow> c_mean (d_centroids d ! nat (i - 1)) \<le> c_mean (inc (d_centroids d ! nat i) val)"
    and hi: "i + 1 < int (length (d_centroids d)) \<longrightarrow>
             c_mean (inc (d_centroids d ! nat i) val) \<le> c_mean (d_centroids d ! nat (i + 1))"
  shows "shape (incAt d i val)" "weight (incAt d i val) = weight d + 1"
proof -
  define cs where "cs = d_centroids d"
  define c' where "c' = inc (cs ! nat i) val"
  have ni: "nat i < length cs" using i by (simp add: cs_def)
  from sh have n: "d_nCentroids d = int (length cs)" and srt: "sorted (map c_mean cs)"
    and cnt: "list_all (\<lambda>c. 1 \<le> c_count c) cs" and ci: "cachedIndices d"
    by (simp_all add: shape_def cs_def)
  have cs': "d_centroids (incAt d i val) = cs[nat i := c']"
    by (simp add: incAt_def cs_def c'_def)
  have "1 \<le> c_count (cs ! nat i)" using cnt ni by (simp add: list_all_length)
  then have c1: "1 \<le> c_count c'" by (simp add: c'_def inc_count)
  have "sorted ((map c_mean cs)[nat i := c_mean c'])"
  proof (rule sorted_update_at [OF srt])
    show "nat i < length (map c_mean cs)" using ni by simp
    show "0 < nat i \<longrightarrow> map c_mean cs ! (nat i - 1) \<le> c_mean c'"
      using lo i ni by (simp add: cs_def c'_def nat_diff_distrib)
    show "Suc (nat i) < length (map c_mean cs) \<longrightarrow> c_mean c' \<le> map c_mean cs ! Suc (nat i)"
      using hi i ni by (simp add: cs_def c'_def nat_add_distrib)
  qed
  then have s': "sorted (map c_mean (cs[nat i := c']))" by (simp add: map_update)
  have l': "list_all (\<lambda>c. 1 \<le> c_count c) (cs[nat i := c'])"
    using cnt c1 by (rule list_all_update)
  have ci': "cachedIndices (incAt d i val)" using ci by (simp add: cachedIndices_def incAt_def)
  have n': "d_nCentroids (incAt d i val) = int (length (cs[nat i := c']))"
    using n by (simp add: incAt_def)
  show "shape (incAt d i val)"
    unfolding shape_def cs' using s' l' ci' n' by simp
  have "sum_list (map c_count (cs[nat i := c'])) = sum_list (map c_count cs) - c_count (cs ! nat i) + c_count c'"
    using ni by (simp add: map_update sum_list_update_real)
  then show "weight (incAt d i val) = weight d + 1"
    by (simp add: weight_def cs' c'_def inc_count) (simp add: cs_def)
qed

lemma incAt_fields:
  "d_count (incAt d i val) = d_count d" "d_compression (incAt d i val) = d_compression d"
  "length (d_centroids (incAt d i val)) = length (d_centroids d)"
  by (simp_all add: incAt_def)

lemma addCentroid_shape:
  assumes sh: "shape d" and i: "0 \<le> i" "i \<le> int (length (d_centroids d))"
    and lo: "0 < i \<longrightarrow> c_mean (d_centroids d ! nat (i - 1)) \<le> val"
    and hi: "i < int (length (d_centroids d)) \<longrightarrow> val \<le> c_mean (d_centroids d ! nat i)"
  shows "\<exists>d'. addCentroid d i val = Inr d' \<and> shape d' \<and> weight d' = weight d + 1 \<and>
           d_count d' = d_count d \<and> d_compression d' = d_compression d \<and>
           length (d_centroids d') = length (d_centroids d) + 1"
proof -
  define cs where "cs = d_centroids d"
  define new where "new = \<lparr>c_mean = val, c_count = 1, c_maxCount = 0, c_nCentroids = 0\<rparr>"
  define cs' where "cs' = take (nat i) cs @ [new] @ drop (nat i) cs"
  define n where "n = d_nCentroids d + 1"
  define d0 where "d0 = d\<lparr>d_centroids := cs', d_nCentroids := n\<rparr>"
  define d' where "d' = (if 3 \<le> n then d0\<lparr>d_p5Centroid := (n * 3) sdiv 8,
      d_p95Centroid := (n * 5) sdiv 8 + 1\<rparr> else d0)"
  from sh have nlen: "d_nCentroids d = int (length cs)" and srt: "sorted (map c_mean cs)"
    and cnt: "list_all (\<lambda>c. 1 \<le> c_count c) cs" and ci: "cachedIndices d"
    by (simp_all add: shape_def cs_def)
  have ni: "nat i \<le> length cs" using i by (simp add: cs_def)
  have eq: "addCentroid d i val = Inr d'"
    using i by (simp add: addCentroid_def Let_def d'_def d0_def n_def cs'_def new_def cs_def)
  have cs_d': "d_centroids d' = cs'" by (simp add: d'_def d0_def)
  have len: "length cs' = length cs + 1" using ni by (simp add: cs'_def)
  have n_d': "d_nCentroids d' = int (length cs')"
    using nlen len by (simp add: d'_def d0_def n_def)
  have "sorted (take (nat i) (map c_mean cs) @ [val] @ drop (nat i) (map c_mean cs))"
  proof (rule sorted_insert_at [OF srt])
    show "nat i \<le> length (map c_mean cs)" using ni by simp
    show "0 < nat i \<longrightarrow> map c_mean cs ! (nat i - 1) \<le> val"
      using lo i ni by (simp add: cs_def nat_diff_distrib)
    show "nat i < length (map c_mean cs) \<longrightarrow> val \<le> map c_mean cs ! nat i"
      using hi i by (simp add: cs_def)
  qed
  then have s': "sorted (map c_mean cs')"
    by (simp add: cs'_def new_def take_map drop_map)
  have l': "list_all (\<lambda>c. 1 \<le> c_count c) cs'"
    using cnt by (auto simp: cs'_def new_def list_all_iff dest: in_set_takeD in_set_dropD)
  have n0: "0 \<le> n" using nlen by (simp add: n_def)
  have ci': "cachedIndices d'"
  proof (cases "3 \<le> n")
    case True
    then show ?thesis using n0 by (simp add: cachedIndices_def d'_def d0_def sdiv_nonneg)
  next
    case False
    then have "\<not> 3 \<le> d_nCentroids d" by (simp add: n_def)
    with ci False show ?thesis by (simp add: cachedIndices_def d'_def d0_def)
  qed
  have w: "weight d' = weight d + 1"
  proof -
    have "sum_list (map c_count (take (nat i) cs)) + sum_list (map c_count (drop (nat i) cs))
          = sum_list (map c_count cs)"
      by (simp only: sum_list_append [symmetric] map_append [symmetric] append_take_drop_id)
    then have "sum_list (map c_count cs') = sum_list (map c_count cs) + 1"
      by (simp add: cs'_def new_def)
    then show ?thesis by (simp add: weight_def cs_d' cs_def)
  qed
  have "shape d'" unfolding shape_def cs_d' using s' l' ci' n_d' by simp
  moreover have "d_count d' = d_count d" "d_compression d' = d_compression d"
    by (simp_all add: d'_def d0_def)
  ultimately show ?thesis using eq w len cs_d' by (simp add: cs_def)
qed

lemma incAt_up:
  assumes sh: "shape d" and i: "0 \<le> i" "i < int (length (d_centroids d))"
    and lo: "c_mean (d_centroids d ! nat i) \<le> val"
    and hi: "i + 1 < int (length (d_centroids d)) \<longrightarrow> val \<le> c_mean (d_centroids d ! nat (i + 1))"
  shows "grown d (incAt d i val)"
proof -
  from sh have srt: "sorted (map c_mean (d_centroids d))"
    and cnt: "list_all (\<lambda>c. 1 \<le> c_count c) (d_centroids d)"
    by (simp_all add: shape_def)
  have c1: "1 \<le> c_count (d_centroids d ! nat i)" using cnt i by (simp add: list_all_length)
  note m = inc_mean_up [OF c1 lo]
  have "0 < i \<longrightarrow> c_mean (d_centroids d ! nat (i - 1)) \<le> c_mean (d_centroids d ! nat i)"
    using srt i by (auto intro!: sorted_means_le)
  with m have a: "0 < i \<longrightarrow> c_mean (d_centroids d ! nat (i - 1)) \<le> c_mean (inc (d_centroids d ! nat i) val)"
    by auto
  from m hi have b: "i + 1 < int (length (d_centroids d)) \<longrightarrow>
      c_mean (inc (d_centroids d ! nat i) val) \<le> c_mean (d_centroids d ! nat (i + 1))"
    by auto
  from incAt_shape [OF sh i a b] show ?thesis by (simp add: grown_def incAt_fields)
qed

lemma incAt_down:
  assumes sh: "shape d" and i: "0 \<le> i" "i < int (length (d_centroids d))"
    and hi: "val \<le> c_mean (d_centroids d ! nat i)"
    and lo: "0 < i \<longrightarrow> c_mean (d_centroids d ! nat (i - 1)) \<le> val"
  shows "grown d (incAt d i val)"
proof -
  from sh have srt: "sorted (map c_mean (d_centroids d))"
    and cnt: "list_all (\<lambda>c. 1 \<le> c_count c) (d_centroids d)"
    by (simp_all add: shape_def)
  have c1: "1 \<le> c_count (d_centroids d ! nat i)" using cnt i by (simp add: list_all_length)
  note m = inc_mean_down [OF c1 hi]
  have "i + 1 < int (length (d_centroids d)) \<longrightarrow>
      c_mean (d_centroids d ! nat i) \<le> c_mean (d_centroids d ! nat (i + 1))"
    using srt i by (auto intro!: sorted_means_le)
  with m have b: "i + 1 < int (length (d_centroids d)) \<longrightarrow>
      c_mean (inc (d_centroids d ! nat i) val) \<le> c_mean (d_centroids d ! nat (i + 1))"
    by auto
  from m lo have a: "0 < i \<longrightarrow> c_mean (d_centroids d ! nat (i - 1)) \<le> c_mean (inc (d_centroids d ! nat i) val)"
    by auto
  from incAt_shape [OF sh i a b] show ?thesis by (simp add: grown_def incAt_fields)
qed

lemma addCentroid_grown:
  assumes "shape d" "0 \<le> i" "i \<le> int (length (d_centroids d))"
    "0 < i \<longrightarrow> c_mean (d_centroids d ! nat (i - 1)) \<le> val"
    "i < int (length (d_centroids d)) \<longrightarrow> val \<le> c_mean (d_centroids d ! nat i)"
  shows "\<exists>d'. addCentroid d i val = Inr d' \<and> grown d d'"
  using addCentroid_shape [OF assms] by (auto simp: grown_def)

lemma grown_sameStore: "sameStore d d1 \<Longrightarrow> grown d1 d' \<Longrightarrow> grown d d'"
  by (simp add: grown_def sameStore_weight sameStore_fields)

lemma grown_appendLower: "grown d d' \<Longrightarrow> grown d (d'\<lparr>d_appendLower := b\<rparr>)"
  by (simp add: grown_def shape_def cachedIndices_def weight_def)

lemma add_steady_low:
  assumes "d_nCentroids d \<noteq> 0" "d_nCentroids d \<noteq> 1" "nearest d val = Inr r"
    "roomCheck d r = Inr (lr, d1)" "val < c_mean (d_centroids d1 ! nat r)"
  shows "add d val = (if lr then Inr (incAt d1 r val) else addCentroid d1 0 val)"
  using assms by (simp add: add_def)

lemma add_steady_high:
  assumes "d_nCentroids d \<noteq> 0" "d_nCentroids d \<noteq> 1" "nearest d val = Inr r"
    "roomCheck d r = Inr (lr, d1)" "\<not> val < c_mean (d_centroids d1 ! nat r)"
    "r = int (length (d_centroids d1)) - 1"
  shows "add d val = (if lr then Inr (incAt d1 r val)
            else addCentroid d1 (int (length (d_centroids d1))) val)"
  using assms(1-5) unfolding add_def by (simp add: assms(6) [symmetric])

lemma add_steady_between:
  assumes "d_nCentroids d \<noteq> 0" "d_nCentroids d \<noteq> 1" "nearest d val = Inr r"
    "roomCheck d r = Inr (lr, d1)" "\<not> val < c_mean (d_centroids d1 ! nat r)"
    "r \<noteq> int (length (d_centroids d1)) - 1" "roomCheck d1 (r + 1) = Inr (rr, d2)"
  shows "add d val =
          (if lr \<and> rr then
             Inr ((if d_appendLower d2 then incAt d2 r val else incAt d2 (r + 1) val)
                  \<lparr>d_appendLower := \<not> d_appendLower d2\<rparr>)
           else if lr \<and> \<not> rr then Inr (incAt d2 r val)
           else if \<not> lr \<and> rr then Inr (incAt d2 (r + 1) val)
           else addCentroid d2 (r + 1) val)"
  using assms unfolding add_def by simp

lemma grown_low:
  assumes sh1: "shape d1" and r0: "r = 0" and ne: "0 < int (length (d_centroids d1))"
    and low1: "val < c_mean (d_centroids d1 ! nat r)"
    and res: "(if lr then Inr (incAt d1 r val) else addCentroid d1 0 val) = Inr d'"
  shows "grown d1 d'"
proof (cases lr)
  case True
  have "grown d1 (incAt d1 r val)"
  proof (rule incAt_down [OF sh1])
    show "0 \<le> r" "r < int (length (d_centroids d1))" using r0 ne by simp_all
    show "val \<le> c_mean (d_centroids d1 ! nat r)" using low1 by simp
    show "0 < r \<longrightarrow> c_mean (d_centroids d1 ! nat (r - 1)) \<le> val" using r0 by simp
  qed
  with True res show ?thesis by simp
next
  case False
  have "\<exists>d'. addCentroid d1 0 val = Inr d' \<and> grown d1 d'"
  proof (rule addCentroid_grown [OF sh1])
    show "(0::int) \<le> 0" "0 \<le> int (length (d_centroids d1))" by simp_all
    show "(0::int) < 0 \<longrightarrow> c_mean (d_centroids d1 ! nat (0 - 1)) \<le> val" by simp
    show "0 < int (length (d_centroids d1)) \<longrightarrow> val \<le> c_mean (d_centroids d1 ! nat 0)"
      using low1 r0 by simp
  qed
  with False res show ?thesis by auto
qed

lemma grown_high:
  assumes sh1: "shape d1" and r: "0 \<le> r" and last1: "r = int (length (d_centroids d1)) - 1"
    and ge1: "\<not> val < c_mean (d_centroids d1 ! nat r)"
    and res: "(if lr then Inr (incAt d1 r val)
               else addCentroid d1 (int (length (d_centroids d1))) val) = Inr d'"
  shows "grown d1 d'"
proof (cases lr)
  case True
  have "grown d1 (incAt d1 r val)"
  proof (rule incAt_up [OF sh1 r])
    show "r < int (length (d_centroids d1))" using last1 by simp
    show "c_mean (d_centroids d1 ! nat r) \<le> val" using ge1 by simp
    show "r + 1 < int (length (d_centroids d1)) \<longrightarrow> val \<le> c_mean (d_centroids d1 ! nat (r + 1))"
      using last1 by linarith
  qed
  with True res show ?thesis by simp
next
  case False
  have "\<exists>d'. addCentroid d1 (int (length (d_centroids d1))) val = Inr d' \<and> grown d1 d'"
  proof (rule addCentroid_grown [OF sh1])
    show "0 \<le> int (length (d_centroids d1))"
      "int (length (d_centroids d1)) \<le> int (length (d_centroids d1))" by simp_all
    have "nat (int (length (d_centroids d1)) - 1) = nat r" using last1 by simp
    then show "0 < int (length (d_centroids d1)) \<longrightarrow>
        c_mean (d_centroids d1 ! nat (int (length (d_centroids d1)) - 1)) \<le> val"
      using ge1 by simp
    show "int (length (d_centroids d1)) < int (length (d_centroids d1)) \<longrightarrow>
        val \<le> c_mean (d_centroids d1 ! nat (int (length (d_centroids d1))))" by simp
  qed
  with False res show ?thesis by auto
qed

lemma grown_between:
  assumes sh2: "shape d2" and r: "0 \<le> r" and r1: "r + 1 < int (length (d_centroids d2))"
    and lo2: "c_mean (d_centroids d2 ! nat r) \<le> val"
    and up2: "val \<le> c_mean (d_centroids d2 ! nat (r + 1))"
    and res: "(if lr \<and> rr then
             Inr ((if d_appendLower d2 then incAt d2 r val else incAt d2 (r + 1) val)
                  \<lparr>d_appendLower := \<not> d_appendLower d2\<rparr>)
           else if lr \<and> \<not> rr then Inr (incAt d2 r val)
           else if \<not> lr \<and> rr then Inr (incAt d2 (r + 1) val)
           else addCentroid d2 (r + 1) val) = Inr d'"
  shows "grown d2 d'"
proof -
  have gl: "grown d2 (incAt d2 r val)"
  proof (rule incAt_up [OF sh2 r _ lo2])
    show "r < int (length (d_centroids d2))" using r1 by simp
    show "r + 1 < int (length (d_centroids d2)) \<longrightarrow> val \<le> c_mean (d_centroids d2 ! nat (r + 1))"
      using up2 by simp
  qed
  have gr: "grown d2 (incAt d2 (r + 1) val)"
  proof (rule incAt_down [OF sh2 _ r1 up2])
    show "0 \<le> r + 1" using r by simp
    show "0 < r + 1 \<longrightarrow> c_mean (d_centroids d2 ! nat (r + 1 - 1)) \<le> val"
      using lo2 by simp
  qed
  have gn: "\<exists>d'. addCentroid d2 (r + 1) val = Inr d' \<and> grown d2 d'"
  proof (rule addCentroid_grown [OF sh2])
    show "0 \<le> r + 1" "r + 1 \<le> int (length (d_centroids d2))" using r r1 by simp_all
    show "0 < r + 1 \<longrightarrow> c_mean (d_centroids d2 ! nat (r + 1 - 1)) \<le> val"
      using lo2 by simp
    show "r + 1 < int (length (d_centroids d2)) \<longrightarrow> val \<le> c_mean (d_centroids d2 ! nat (r + 1))"
      using up2 by simp
  qed
  show ?thesis
  proof (cases "lr \<and> rr")
    case True
    with res have "d' = (if d_appendLower d2 then incAt d2 r val else incAt d2 (r + 1) val)
        \<lparr>d_appendLower := \<not> d_appendLower d2\<rparr>"
      by simp
    moreover have "grown d2 (if d_appendLower d2 then incAt d2 r val else incAt d2 (r + 1) val)"
      using gl gr by simp
    ultimately show ?thesis by (simp only: grown_appendLower)
  next
    case nb: False
    show ?thesis
    proof (cases lr)
      case True
      with nb res have "d' = incAt d2 r val" by simp
      with gl show ?thesis by simp
    next
      case nl: False
      show ?thesis
      proof (cases rr)
        case True
        with nl res have "d' = incAt d2 (r + 1) val" by simp
        with gr show ?thesis by simp
      next
        case False
        with nl res have "addCentroid d2 (r + 1) val = Inr d'" by simp
        with gn show ?thesis by auto
      qed
    qed
  qed
qed

lemma add_empty: "d_nCentroids d = 0 \<Longrightarrow> add d val = addCentroid d 0 val"
  by (simp add: add_def)

lemma add_one:
  assumes "d_nCentroids d = 1" "index (d_centroids d) 0 = Inr c"
  shows "add d val =
     (if c_count c < d_compression d then Inr (incAt d 0 val)
      else if val < c_mean c then addCentroid d 0 val
      else addCentroid d 1 val)"
  using assms by (simp add: add_def)

lemma add_grown_empty:
  assumes sh: "shape d" and e: "length (d_centroids d) = 0" and ok: "add d val = Inr d'"
  shows "grown d d'"
proof -
  from sh e have "d_nCentroids d = 0" by (simp add: shape_def)
  then have "add d val = addCentroid d 0 val" by (rule add_empty)
  moreover have "\<exists>d'. addCentroid d 0 val = Inr d' \<and> grown d d'"
    using e by (intro addCentroid_grown [OF sh]) simp_all
  ultimately show ?thesis using ok by auto
qed

lemma add_grown_one:
  assumes sh: "shape d" and one: "length (d_centroids d) = 1" and ok: "add d val = Inr d'"
  shows "grown d d'"
proof -
  define c where "c = d_centroids d ! 0"
  have ix: "index (d_centroids d) 0 = Inr c" using one by (simp add: index_def c_def)
  from sh one have n1: "d_nCentroids d = 1" by (simp add: shape_def)
  note eq = add_one [OF n1 ix, of val]
  have up: "grown d (incAt d 0 val)" if "c_mean c \<le> val"
  proof (rule incAt_up [OF sh])
    show "(0::int) \<le> 0" "0 < int (length (d_centroids d))" using one by simp_all
    show "c_mean (d_centroids d ! nat 0) \<le> val" using that by (simp add: c_def)
    show "0 + 1 < int (length (d_centroids d)) \<longrightarrow> val \<le> c_mean (d_centroids d ! nat (0 + 1))"
      using one by simp
  qed
  have down: "grown d (incAt d 0 val)" if "val \<le> c_mean c"
  proof (rule incAt_down [OF sh])
    show "(0::int) \<le> 0" "0 < int (length (d_centroids d))" using one by simp_all
    show "val \<le> c_mean (d_centroids d ! nat 0)" using that by (simp add: c_def)
    show "(0::int) < 0 \<longrightarrow> c_mean (d_centroids d ! nat (0 - 1)) \<le> val" by simp
  qed
  have folded: "grown d (incAt d 0 val)" using up down by (cases "c_mean c \<le> val") simp_all
  have before: "\<exists>d'. addCentroid d 0 val = Inr d' \<and> grown d d'" if "val < c_mean c"
  proof (rule addCentroid_grown [OF sh])
    show "(0::int) \<le> 0" "0 \<le> int (length (d_centroids d))" by simp_all
    show "(0::int) < 0 \<longrightarrow> c_mean (d_centroids d ! nat (0 - 1)) \<le> val" by simp
    show "0 < int (length (d_centroids d)) \<longrightarrow> val \<le> c_mean (d_centroids d ! nat 0)"
      using that by (simp add: c_def)
  qed
  have behind: "\<exists>d'. addCentroid d 1 val = Inr d' \<and> grown d d'" if "\<not> val < c_mean c"
  proof (rule addCentroid_grown [OF sh])
    show "(0::int) \<le> 1" "1 \<le> int (length (d_centroids d))" using one by simp_all
    show "(0::int) < 1 \<longrightarrow> c_mean (d_centroids d ! nat (1 - 1)) \<le> val"
      using that by (simp add: c_def)
    show "1 < int (length (d_centroids d)) \<longrightarrow> val \<le> c_mean (d_centroids d ! nat 1)"
      using one by simp
  qed
  show ?thesis
  proof (cases "c_count c < d_compression d")
    case True
    with eq ok have "d' = incAt d 0 val" by simp
    with folded show ?thesis by simp
  next
    case full: False
    show ?thesis
    proof (cases "val < c_mean c")
      case True
      with full eq ok have "addCentroid d 0 val = Inr d'" by simp
      with before [OF True] show ?thesis by auto
    next
      case False
      with full eq ok have "addCentroid d 1 val = Inr d'" by simp
      with behind [OF False] show ?thesis by auto
    qed
  qed
qed

lemma add_grown_steady:
  assumes sh: "shape d" and steady: "2 \<le> length (d_centroids d)" and ok: "add d val = Inr d'"
  shows "grown d d'"
proof -
  define cs where "cs = d_centroids d"
  from sh have n: "d_nCentroids d = int (length cs)"
    by (simp add: shape_def cs_def)
  have len: "2 \<le> int (length cs)" using steady by (simp add: cs_def)
  have nn: "d_nCentroids d \<noteq> 0" "d_nCentroids d \<noteq> 1" using n len by linarith+
  from nearest_bracket [OF sh steady, of val]
  obtain r where nr: "nearest d val = Inr r" and br: "bracket cs val r"
    by (auto simp: cs_def)
  have "0 \<le> r \<and> r < int (length cs)"
  proof (rule ccontr)
    assume "\<not> (0 \<le> r \<and> r < int (length cs))"
    then have "roomCheck d r = Inl IndexOutOfRange"
      unfolding cs_def by (rule roomCheck_panics)
    then have "add d val = Inl IndexOutOfRange" using nn nr by (simp add: add_def)
    with ok show False by simp
  qed
  then have r: "0 \<le> r" "r < int (length cs)" by simp_all
  from br r have lo: "val < c_mean (cs ! nat r) \<longrightarrow> r = 0"
    and hi: "r + 1 < int (length cs) \<longrightarrow> val \<le> c_mean (cs ! nat (r + 1))"
    unfolding bracket_def by linarith+
  have "\<exists>b d1. roomCheck d r = Inr (b, d1)"
    using r unfolding cs_def by (rule roomCheck_total)
  then obtain lr d1 where rc1: "roomCheck d r = Inr (lr, d1)" by blast
  note ss1 = roomCheck_sameStore [OF rc1]
  note sh1 = sameStore_shape [OF ss1 sh]
  have len1: "length (d_centroids d1) = length cs"
    unfolding cs_def using ss1 by (rule sameStore_length)
  have mean1: "c_mean (d_centroids d1 ! nat j) = c_mean (cs ! nat j)"
    if "0 \<le> j" "j < int (length cs)" for j
  proof -
    have "nat j < length (d_centroids d)" using that by (simp add: cs_def)
    with ss1 show ?thesis unfolding cs_def by (rule sameStore_mean)
  qed
  have mr1: "c_mean (d_centroids d1 ! nat r) = c_mean (cs ! nat r)" by (rule mean1 [OF r])
  show ?thesis
  proof (cases "val < c_mean (cs ! nat r)")
    case True
    with lo have r0: "r = 0" by simp
    have low1: "val < c_mean (d_centroids d1 ! nat r)" using True mr1 by simp
    have eq: "add d val = (if lr then Inr (incAt d1 r val) else addCentroid d1 0 val)"
      using nn nr rc1 low1 by (rule add_steady_low)
    have "grown d1 d'"
    proof (rule grown_low [OF sh1 r0 _ low1])
      show "0 < int (length (d_centroids d1))" using len len1 by linarith
      show "(if lr then Inr (incAt d1 r val) else addCentroid d1 0 val) = Inr d'"
        using eq ok by simp
    qed
    with ss1 show ?thesis by (rule grown_sameStore)
  next
    case ge: False
    have ge1: "\<not> val < c_mean (d_centroids d1 ! nat r)" using ge mr1 by simp
    show ?thesis
    proof (cases "r = int (length cs) - 1")
      case True
      have last1: "r = int (length (d_centroids d1)) - 1" using True len1 by simp
      have eq: "add d val = (if lr then Inr (incAt d1 r val)
          else addCentroid d1 (int (length (d_centroids d1))) val)"
        using nn nr rc1 ge1 last1 by (rule add_steady_high)
      have "grown d1 d'"
      proof (rule grown_high [OF sh1 r(1) last1 ge1])
        show "(if lr then Inr (incAt d1 r val)
          else addCentroid d1 (int (length (d_centroids d1))) val) = Inr d'"
          using eq ok by simp
      qed
      with ss1 show ?thesis by (rule grown_sameStore)
    next
      case mid: False
      with r have r1: "0 \<le> r + 1" "r + 1 < int (length cs)" by linarith+
      with hi have up: "val \<le> c_mean (cs ! nat (r + 1))" by simp
      have mid1: "r \<noteq> int (length (d_centroids d1)) - 1" using mid len1 by simp
      have "\<exists>b d2. roomCheck d1 (r + 1) = Inr (b, d2)"
      proof (rule roomCheck_total)
        show "0 \<le> r + 1" "r + 1 < int (length (d_centroids d1))" using r1 len1 by simp_all
      qed
      then obtain rr d2 where rc2: "roomCheck d1 (r + 1) = Inr (rr, d2)" by blast
      note ss2 = roomCheck_sameStore [OF rc2]
      note sh2 = sameStore_shape [OF ss2 sh1]
      have len2: "length (d_centroids d2) = length cs"
        using sameStore_length [OF ss2] len1 by simp
      have mean2: "c_mean (d_centroids d2 ! nat j) = c_mean (cs ! nat j)"
        if "0 \<le> j" "j < int (length cs)" for j
      proof -
        have "nat j < length (d_centroids d1)" using that len1 by simp
        with ss2 have "c_mean (d_centroids d2 ! nat j) = c_mean (d_centroids d1 ! nat j)"
          by (rule sameStore_mean)
        with mean1 [OF that] show ?thesis by simp
      qed
      have lo2: "c_mean (d_centroids d2 ! nat r) \<le> val" using ge mean2 [OF r] by simp
      have up2: "val \<le> c_mean (d_centroids d2 ! nat (r + 1))" using up mean2 [OF r1] by simp
      note eq = add_steady_between [OF nn nr rc1 ge1 mid1 rc2]
      have "grown d2 d'"
      proof (rule grown_between [OF sh2 r(1) _ lo2 up2])
        show "r + 1 < int (length (d_centroids d2))" using r1 len2 by simp
        show "(if lr \<and> rr then
             Inr ((if d_appendLower d2 then incAt d2 r val else incAt d2 (r + 1) val)
                  \<lparr>d_appendLower := \<not> d_appendLower d2\<rparr>)
           else if lr \<and> \<not> rr then Inr (incAt d2 r val)
           else if \<not> lr \<and> rr then Inr (incAt d2 (r + 1) val)
           else addCentroid d2 (r + 1) val) = Inr d'"
          using ok unfolding eq .
      qed
      with ss2 have "grown d1 d'" by (rule grown_sameStore)
      with ss1 show ?thesis by (rule grown_sameStore)
    qed
  qed
qed

lemma add_grown:
  assumes sh: "shape d" and ok: "add d val = Inr d'"
  shows "grown d d'"
proof -
  consider "length (d_centroids d) = 0" | "length (d_centroids d) = 1"
    | "2 \<le> length (d_centroids d)"
    by linarith
  then show ?thesis
  proof cases
    case 1
    with sh show ?thesis using ok by (rule add_grown_empty)
  next
    case 2
    with sh show ?thesis using ok by (rule add_grown_one)
  next
    case 3
    with sh show ?thesis using ok by (rule add_grown_steady)
  qed
qed

section \<open>When an insertion returns\<close>

lemma addCentroid_total:
  "0 \<le> i \<Longrightarrow> i \<le> int (length (d_centroids d)) \<Longrightarrow> \<exists>d'. addCentroid d i val = Inr d'"
  by (simp add: addCentroid_def Let_def)

lemma linearSearch_nonneg:
  assumes "linearSearch cs val left right = Inr r" "0 \<le> left" "0 < right"
  shows "0 \<le> r"
proof (cases "sliceFrom cs (left + 1)")
  case (Inl e)
  with assms(1) show ?thesis by (simp add: linearSearch_def)
next
  case (Inr rest)
  show ?thesis
  proof (cases "scanFrom rest val left")
    case None
    with Inr assms show ?thesis by (simp add: linearSearch_def)
  next
    case (Some k)
    with Inr assms(1) have "r = k" by (simp add: linearSearch_def)
    moreover from scanFrom_Some [OF Some] have "left \<le> k" by simp
    ultimately show ?thesis using assms(2) by simp
  qed
qed

lemma nearestLoop_nonneg:
  "nearestLoop cs val left right = Inr r \<Longrightarrow> 0 \<le> left \<Longrightarrow> 0 < right \<Longrightarrow> 0 \<le> r"
proof (induction cs val left right rule: nearestLoop.induct)
  case (1 cs val left right)
  show ?case
  proof (cases "right - left > binarySearchThreshold")
    case False
    then have "linearSearch cs val left right = Inr r"
      using "1.prems"(1) by (simp add: nearestLoop.simps)
    then show ?thesis using "1.prems"(2,3) by (rule linearSearch_nonneg)
  next
    case wide: True
    define middle where "middle = left + (right - left) sdiv 2"
    have diff: "32 < right - left" using wide by (simp add: binarySearchThreshold_def)
    then have mid: "middle = left + (right - left) div 2"
      by (simp add: middle_def sdiv_nonneg)
    have m: "left < middle - 1" "middle + 1 < right" using diff mid by linarith+
    have run: "(case index cs middle of
              Inl e \<Rightarrow> Inl e
            | Inr cm \<Rightarrow>
                if c_mean cm < val then
                  (case index cs (middle + 1) of
                     Inl e \<Rightarrow> Inl e
                   | Inr cn \<Rightarrow>
                       if val < c_mean cn then Inr middle
                       else nearestLoop cs val (middle + 1) right)
                else
                  (case index cs (middle - 1) of
                     Inl e \<Rightarrow> Inl e
                   | Inr cp \<Rightarrow>
                       if c_mean cp < val then Inr (middle - 1)
                       else nearestLoop cs val left middle)) = Inr r"
      using "1.prems"(1) wide
      by (subst (asm) nearestLoop.simps) (simp add: middle_def [symmetric])
    then obtain cm where cm: "index cs middle = Inr cm" by (auto split: sum.splits)
    show ?thesis
    proof (cases "c_mean cm < val")
      case above: True
      with run cm obtain cn where cn: "index cs (middle + 1) = Inr cn"
        by (auto split: sum.splits)
      show ?thesis
      proof (cases "val < c_mean cn")
        case True
        with run cm cn above have "r = middle" by simp
        with m "1.prems"(2) show ?thesis by simp
      next
        case False
        with run cm cn above have "nearestLoop cs val (middle + 1) right = Inr r" by simp
        then show ?thesis
        proof (rule "1.IH"(1) [OF wide middle_def cm above cn False])
          show "0 \<le> middle + 1" using m "1.prems"(2) by simp
          show "0 < right" by (rule "1.prems")
        qed
      qed
    next
      case below: False
      with run cm obtain cp where cp: "index cs (middle - 1) = Inr cp"
        by (auto split: sum.splits)
      show ?thesis
      proof (cases "c_mean cp < val")
        case True
        with run cm cp below have "r = middle - 1" by simp
        with m "1.prems"(2) show ?thesis by simp
      next
        case False
        with run cm cp below have "nearestLoop cs val left middle = Inr r" by simp
        then show ?thesis
        proof (rule "1.IH"(2) [OF wide middle_def cm below cp False])
          show "0 \<le> left" by (rule "1.prems")
          show "0 < middle" using m "1.prems"(2) by simp
        qed
      qed
    qed
  qed
qed

lemma nearest_two:
  assumes len: "length (d_centroids d) = 2" and p: "d_p5Centroid d = 0"
    and le: "\<not> c_mean (d_centroids d ! 0) < val"
  shows "nearest d val = Inr (if val < c_mean (d_centroids d ! 1) then 0 else - 1)"
proof -
  from len obtain a b where cs: "d_centroids d = [a, b]"
    by (cases "d_centroids d"; cases "tl (d_centroids d)") auto
  show ?thesis
    using le by (simp add: nearest_def cs p index_def nearestLoop.simps
        binarySearchThreshold_def linearSearch_def sliceFrom_def)
qed

lemma nearest_nonneg:
  assumes sh: "shape d" and n2: "2 \<le> length (d_centroids d)"
    and ok: "3 \<le> length (d_centroids d) \<or> c_mean (d_centroids d ! 0) < val
             \<or> val < c_mean (d_centroids d ! 1)"
    and nr: "nearest d val = Inr r"
  shows "0 \<le> r"
proof -
  define cs where "cs = d_centroids d"
  define p5 where "p5 = d_p5Centroid d"
  define p95 where "p95 = d_p95Centroid d"
  from sh have n: "d_nCentroids d = int (length cs)" and ci: "cachedIndices d"
    by (simp_all add: shape_def cs_def)
  have b: "0 \<le> p5" "p5 \<le> p95" "p95 < int (length cs)"
    using cachedIndices_bounds [OF ci] n n2 by (simp_all add: p5_def p95_def cs_def)
  have ix: "index cs p5 = Inr (cs ! nat p5)" "index cs p95 = Inr (cs ! nat p95)"
    using b by (simp_all add: index_def)
  show ?thesis
  proof (cases "c_mean (cs ! nat p5) < val")
    case True
    define right where "right = (if val < c_mean (cs ! nat p95) then p95 + 1 else int (length cs))"
    have "nearest d val = nearestLoop cs val p5 right"
      using True ix n by (simp add: nearest_def cs_def [symmetric] p5_def [symmetric]
          p95_def [symmetric] right_def)
    with nr have "nearestLoop cs val p5 right = Inr r" by simp
    then show ?thesis
    proof (rule nearestLoop_nonneg)
      show "0 \<le> p5" by (rule b)
      have "0 < p95 + 1" "0 < int (length cs)" using b by linarith+
      then show "0 < right" unfolding right_def by presburger
    qed
  next
    case False
    show ?thesis
    proof (cases "3 \<le> length cs")
      case True
      then have "0 < p5" using ci n by (simp add: cachedIndices_def p5_def)
      have "nearest d val = nearestLoop cs val 0 p5"
        using False ix by (simp add: nearest_def cs_def [symmetric] p5_def [symmetric])
      with nr have "nearestLoop cs val 0 p5 = Inr r" by simp
      then show ?thesis using \<open>0 < p5\<close> by (intro nearestLoop_nonneg [of cs val 0 p5 r]) simp_all
    next
      case two: False
      with n2 have len: "length (d_centroids d) = 2" by (simp add: cs_def)
      then have p: "d_p5Centroid d = 0" using ci n by (simp add: cachedIndices_def cs_def)
      have le: "\<not> c_mean (d_centroids d ! 0) < val" using False p by (simp add: p5_def cs_def)
      with ok len have "val < c_mean (d_centroids d ! 1)" by simp
      with nearest_two [OF len p le] nr show ?thesis by simp
    qed
  qed
qed


lemma add_returns:
  assumes sh: "shape d"
    and ok: "length (d_centroids d) \<noteq> 2 \<or> c_mean (d_centroids d ! 0) < val
             \<or> val < c_mean (d_centroids d ! 1)"
  shows "\<exists>d'. add d val = Inr d'"
proof -
  define cs where "cs = d_centroids d"
  from sh have n: "d_nCentroids d = int (length cs)" by (simp add: shape_def cs_def)
  consider "length cs = 0" | "length cs = 1" | "2 \<le> length cs" by linarith
  then show ?thesis
  proof cases
    case 1
    then have "d_nCentroids d = 0" using n by simp
    then have "add d val = addCentroid d 0 val" by (rule add_empty)
    with addCentroid_total [of 0 d val] show ?thesis by simp
  next
    case 2
    then have n1: "d_nCentroids d = 1" using n by simp
    have ix: "index (d_centroids d) 0 = Inr (cs ! 0)" using 2 by (simp add: index_def cs_def)
    have "\<exists>d'. addCentroid d 0 val = Inr d'" "\<exists>d'. addCentroid d 1 val = Inr d'"
      using 2 by (simp_all add: addCentroid_total cs_def)
    then show ?thesis unfolding add_one [OF n1 ix] by auto
  next
    case 3
    then have n2: "2 \<le> length (d_centroids d)" by (simp add: cs_def)
    have nn: "d_nCentroids d \<noteq> 0" "d_nCentroids d \<noteq> 1" using n 3 by linarith+
    from nearest_bracket [OF sh n2, of val]
    obtain r where nr: "nearest d val = Inr r" and br: "bracket cs val r"
      by (auto simp: cs_def)
    have "3 \<le> length (d_centroids d) \<or> c_mean (d_centroids d ! 0) < val
        \<or> val < c_mean (d_centroids d ! 1)"
      using ok n2 by linarith
    with sh n2 have r0: "0 \<le> r" using nr by (rule nearest_nonneg)
    with br have r: "r < int (length (d_centroids d))"
      unfolding bracket_def cs_def by linarith
    from roomCheck_total [OF r0 r] obtain lr d1 where rc1: "roomCheck d r = Inr (lr, d1)"
      by blast
    have len1: "length (d_centroids d1) = length (d_centroids d)"
      using roomCheck_sameStore [OF rc1] by (rule sameStore_length)
    show ?thesis
    proof (cases "val < c_mean (d_centroids d1 ! nat r)")
      case True
      note eq = add_steady_low [OF nn nr rc1 True]
      from addCentroid_total [of 0 d1 val] show ?thesis unfolding eq by auto
    next
      case ge: False
      show ?thesis
      proof (cases "r = int (length (d_centroids d1)) - 1")
        case True
        note eq = add_steady_high [OF nn nr rc1 ge True]
        from addCentroid_total [of "int (length (d_centroids d1))" d1 val]
        show ?thesis unfolding eq by auto
      next
        case False
        have r1: "0 \<le> r + 1" "r + 1 < int (length (d_centroids d1))"
          using r0 r False len1 by linarith+
        from roomCheck_total [OF r1] obtain rr d2 where rc2: "roomCheck d1 (r + 1) = Inr (rr, d2)"
          by blast
        have len2: "length (d_centroids d2) = length (d_centroids d1)"
          using roomCheck_sameStore [OF rc2] by (rule sameStore_length)
        note eq = add_steady_between [OF nn nr rc1 ge False rc2]
        have "\<exists>d'. addCentroid d2 (r + 1) val = Inr d'"
          using r1 len2 by (intro addCentroid_total) simp_all
        then show ?thesis unfolding eq by auto
      qed
    qed
  qed
qed

lemma add_panics_two:
  assumes sh: "shape d" and len: "length (d_centroids d) = 2"
    and eq0: "c_mean (d_centroids d ! 0) = val" and eq1: "c_mean (d_centroids d ! 1) = val"
  shows "add d val = Inl IndexOutOfRange"
proof -
  from sh len have n: "d_nCentroids d = 2" and p: "d_p5Centroid d = 0"
    by (simp_all add: shape_def cachedIndices_def)
  have "nearest d val = Inr (if val < c_mean (d_centroids d ! 1) then 0 else - 1)"
    using len p by (rule nearest_two) (simp add: eq0)
  then have nr: "nearest d val = Inr (- 1)" using eq1 by simp
  have "roomCheck d (- 1) = Inl IndexOutOfRange" by (rule roomCheck_panics) simp
  with n nr show ?thesis by (simp add: add_def)
qed

lemma Add_fails_iff:
  assumes sh: "shape d"
  shows "(\<exists>e. Add d val = Inl e) \<longleftrightarrow>
         length (d_centroids d) = 2 \<and> c_mean (d_centroids d ! 0) = val \<and>
         c_mean (d_centroids d ! 1) = val"
proof
  assume "\<exists>e. Add d val = Inl e"
  then have no: "\<not> (\<exists>d'. add d val = Inr d')" by (auto simp: Add_def split: sum.splits)
  with add_returns [OF sh, of val]
  have len: "length (d_centroids d) = 2" and a: "\<not> c_mean (d_centroids d ! 0) < val"
    and b: "\<not> val < c_mean (d_centroids d ! 1)"
    by blast+
  from sh have "sorted (map c_mean (d_centroids d))" by (simp add: shape_def)
  then have "c_mean (d_centroids d ! nat 0) \<le> c_mean (d_centroids d ! nat 1)"
    using len by (intro sorted_means_le) simp_all
  with a b len show "length (d_centroids d) = 2 \<and> c_mean (d_centroids d ! 0) = val \<and>
         c_mean (d_centroids d ! 1) = val"
    by simp
next
  assume "length (d_centroids d) = 2 \<and> c_mean (d_centroids d ! 0) = val \<and>
         c_mean (d_centroids d ! 1) = val"
  then have "add d val = Inl IndexOutOfRange" using sh by (intro add_panics_two) simp_all
  then show "\<exists>e. Add d val = Inl e" by (simp add: Add_def)
qed

text \<open>
  C2. After \<open>New(1); Add(5); Add(5)\<close> the store holds two centroids of mean 5. For a third
  5 the locator takes \<open>right = p5Centroid = 0\<close>, finds no larger mean, and returns
  \<open>right - 1 = -1\<close>; \<open>add\<close> then reads \<open>d.centroids[-1]\<close> and panics.
\<close>

theorem Add_panics:
  "Adds (New 1) [5, 5] = Inr fiveFive \<and>
   nearest fiveFive 5 = Inr (- 1) \<and>
   Add fiveFive 5 = Inl IndexOutOfRange \<and>
   Adds (New 1) [5, 5, 5] = Inl IndexOutOfRange"
  by (simp add: tdigest_defs fiveFive_def)

section \<open>Sequences of insertions\<close>

lemma shape_New: "shape (New c)"
  by (simp add: shape_def New_def cachedIndices_def)

lemma shape_count_update: "shape (d\<lparr>d_count := k\<rparr>) = shape d"
  by (simp add: shape_def cachedIndices_def)

lemma Add_grown:
  assumes "shape d" "Add d val = Inr d'"
  shows "shape d' \<and> weight d' = weight d + 1 \<and> d_count d' = d_count d + 1"
proof -
  from assms(2) obtain d0 where a: "add d val = Inr d0" and d': "d' = d0\<lparr>d_count := d_count d0 + 1\<rparr>"
    by (auto simp: Add_def split: sum.splits)
  from add_grown [OF assms(1) a] have "shape d0" "weight d0 = weight d + 1" "d_count d0 = d_count d"
    by (simp_all add: grown_def)
  with d' show ?thesis by (simp add: shape_count_update weight_def)
qed

lemma Adds_grown:
  "shape d \<Longrightarrow> Adds d vs = Inr d' \<Longrightarrow>
   shape d' \<and> weight d' = weight d + real (length vs) \<and> d_count d' = d_count d + real (length vs)"
proof (induction vs arbitrary: d)
  case Nil
  then show ?case by simp
next
  case (Cons v vs)
  from Cons.prems(2) obtain d1 where a: "Add d v = Inr d1" and rest: "Adds d1 vs = Inr d'"
    by (auto split: sum.splits)
  note g = Add_grown [OF Cons.prems(1) a]
  from g have sh1: "shape d1" by simp
  from Cons.IH [OF sh1 rest] g show ?case by simp
qed



text \<open>
  C4. After \<open>N\<close> calls of \<open>Add\<close> on a fresh digest, the counts of the centroids sum to
  \<open>N\<close>, and the \<open>count\<close> field of the digest is that sum.
\<close>

theorem Adds_weight:
  "Adds (New c) vs = Inr d \<Longrightarrow>
   sum_list (map c_count (d_centroids d)) = real (length vs) \<and>
   d_count d = sum_list (map c_count (d_centroids d))"
  using Adds_grown [OF shape_New, of c vs d] by (simp add: weight_def New_def)

theorem Adds_weight_witness:
  "Adds (New 1) [0, 2, 1, 1, 1] = Inr afterFive \<and>
   sum_list (map c_count (d_centroids afterFive)) = 5 \<and> d_count afterFive = 5"
proof -
  have h: "Adds (New 1) [0, 2, 1, 1, 1] = Inr afterFive"
    by (simp add: tdigest_defs afterFive_def)
  from Adds_weight [OF h] h show ?thesis by simp
qed

section \<open>The capacity policy\<close>








section \<open>The decision table between two centroids\<close>















end
